theory Spec2Isabelle
  imports Complex_Main "HOL-Library.Sublist"
begin

section \<open>JavaScript strings\<close>

text \<open>
  A JavaScript string is a sequence of UTF-16 code units. The model covers the strings
  whose code units are all below 256: a \<^typ>\<open>char\<close> is the code unit of that value
  (the Latin-1 block of Unicode). On these strings \<open>toLowerCase\<close> keeps the length, and
  the definitions below are what ECMAScript prescribes for them.
\<close>

definition code_in :: "nat \<Rightarrow> nat \<Rightarrow> char \<Rightarrow> bool" where
  "code_in lo hi c = (lo \<le> (of_char c :: nat) \<and> (of_char c :: nat) \<le> hi)"

text \<open>\<open>String.prototype.toLowerCase\<close>: A-Z and the accented capitals U+00C0..U+00DE
  (U+00D7, the multiplication sign, apart) move up by 32; nothing else changes.\<close>

definition toLowerCase_char :: "char \<Rightarrow> char" where
  "toLowerCase_char c =
     (if code_in 65 90 c \<or> (code_in 192 222 c \<and> c \<noteq> CHR 0xD7)
      then char_of ((of_char c :: nat) + 32) else c)"

definition toLowerCase :: "string \<Rightarrow> string" where
  "toLowerCase s = map toLowerCase_char s"

text \<open>The line terminators (below 256: LF and CR), and the white space that \<open>trim\<close>
  strips and that \<open>\s\<close> matches: TAB, LF, VT, FF, CR, SPACE and NBSP.\<close>

definition isLineTerminator :: "char \<Rightarrow> bool" where
  "isLineTerminator c = (c = CHR 0x0A \<or> c = CHR 0x0D)"

definition isWhiteSpace :: "char \<Rightarrow> bool" where
  "isWhiteSpace c =
     (c = CHR 0x09 \<or> c = CHR 0x0A \<or> c = CHR 0x0B \<or> c = CHR 0x0C \<or> c = CHR 0x0D
      \<or> c = CHR 0x20 \<or> c = CHR 0xA0)"

definition trim :: "string \<Rightarrow> string" where
  "trim s = rev (dropWhile isWhiteSpace (rev (dropWhile isWhiteSpace s)))"

definition startsWith :: "string \<Rightarrow> string \<Rightarrow> bool" where
  "startsWith s p = (take (length p) s = p)"

text \<open>\<open>s.substring(n)\<close> for \<open>n \<ge> 0\<close>: the string from index \<open>n\<close>, empty beyond the end.\<close>

definition substring :: "string \<Rightarrow> nat \<Rightarrow> string" where
  "substring s n = drop n s"

text \<open>\<open>s.includes(t)\<close>: \<open>t\<close> occurs in \<open>s\<close> at some index.\<close>

fun includes_str :: "string \<Rightarrow> string \<Rightarrow> bool" where
  "includes_str [] t = (t = [])"
| "includes_str (c # cs) t = (startsWith (c # cs) t \<or> includes_str cs t)"

text \<open>\<open>xs.join(sep)\<close> on an array of strings.\<close>

fun join :: "string list \<Rightarrow> string \<Rightarrow> string" where
  "join [] sep = []"
| "join [x] sep = x"
| "join (x # y # ys) sep = x @ sep @ join (y # ys) sep"

section \<open>The regular expression of the append command\<close>

text \<open>
  \<open>text.match(/^append to (.+?):\s*(.+)$/i)\<close>. The expression has neither the \<open>g\<close> nor
  the \<open>m\<close> nor the \<open>s\<close> flag: \<open>^\<close> is the start and \<open>$\<close> the end of the input, and
  \<open>.\<close> is any character but a line terminator. The matcher backtracks in the order
  ECMAScript fixes: the lazy group grows one character at a time, \<open>\s*\<close> gives
  characters back one at a time, and the first success is the match.
\<close>

text \<open>Case folding under the \<open>i\<close> flag (Canonicalize): the upper-case form of the character.
  U+00B5, U+00DF and U+00FF fold to no code unit below 256 and stay as they are.\<close>

definition canonicalize :: "char \<Rightarrow> char" where
  "canonicalize c =
     (if code_in 97 122 c \<or> (code_in 224 254 c \<and> c \<noteq> CHR 0xF7)
      then char_of ((of_char c :: nat) - 32) else c)"

text \<open>\<open>(.+)$\<close> at the rest \<open>s\<close> of the input: greedy, so it reaches the end or fails.\<close>

definition match_dots_end :: "string \<Rightarrow> string option" where
  "match_dots_end s =
     (if s \<noteq> [] \<and> list_all (\<lambda>c. \<not> isLineTerminator c) s then Some s else None)"

text \<open>\<open>\s*(.+)$\<close>: \<open>\s*\<close> first takes the next white space character and goes on; when
  the rest then fails it gives the character back and \<open>(.+)$\<close> is tried here.\<close>

fun match_content :: "string \<Rightarrow> string option" where
  "match_content [] = None"
| "match_content (c # cs) =
     (if isWhiteSpace c
      then (case match_content cs of
              Some r \<Rightarrow> Some r
            | None \<Rightarrow> match_dots_end (c # cs))
      else match_dots_end (c # cs))"

text \<open>\<open>(.+?):\s*(.+)$\<close> with \<open>file\<close> the characters the lazy group holds so far: once
  the group is not empty the continuation \<open>:\s*(.+)$\<close> is tried first, and only when it
  fails does the group take one more character, which must not be a line terminator.\<close>

fun match_file :: "string \<Rightarrow> string \<Rightarrow> (string \<times> string) option" where
  "match_file file [] = None"
| "match_file file (c # cs) =
     (case (if file \<noteq> [] \<and> c = CHR '':'' then match_content cs else None) of
        Some content \<Rightarrow> Some (file, content)
      | None \<Rightarrow> if isLineTerminator c then None else match_file (file @ [c]) cs)"

definition match_append :: "string \<Rightarrow> (string \<times> string) option" where
  "match_append text =
     (if length text \<ge> 10 \<and> map canonicalize (take 10 text) = map canonicalize ''append to ''
      then match_file [] (drop 10 text) else None)"

section \<open>The note store\<close>

text \<open>
  Modelled from the spec: the note store is the host application's vault
  (\<open>this.app.vault\<close>), an external collaborator whose code is not part of the repository.
  The spec gives its contract: an enumeration of titled notes with create, append and
  read. A vault is the list of its markdown files in enumeration order, each with its
  basename and its content; a file handle (\<open>TFile\<close>) is the file's position in the list.
  A created file takes the last place. Folders are left out: the basename of a created
  file is its path without the \<open>.md\<close> extension.
\<close>

type_synonym vault = "(string \<times> string) list"

type_synonym tfile = nat

definition getMarkdownFiles :: "vault \<Rightarrow> tfile list" where
  "getMarkdownFiles v = [0..<length v]"

definition basename :: "vault \<Rightarrow> tfile \<Rightarrow> string" where
  "basename v f = fst (v ! f)"

definition vault_read :: "vault \<Rightarrow> tfile \<Rightarrow> string" where
  "vault_read v f = snd (v ! f)"

definition vault_append :: "vault \<Rightarrow> tfile \<Rightarrow> string \<Rightarrow> vault" where
  "vault_append v f data = v[f := (fst (v ! f), snd (v ! f) @ data)]"

definition vault_create :: "vault \<Rightarrow> string \<Rightarrow> string \<Rightarrow> vault" where
  "vault_create v path data =
     v @ [(if suffix ''.md'' path then take (length path - 3) path else path, data)]"

section \<open>The command handler\<close>

text \<open>\<open>getFileByName\<close>: the first markdown file whose basename is \<open>name\<close>, or null.\<close>

definition getFileByName :: "vault \<Rightarrow> string \<Rightarrow> tfile option" where
  "getFileByName v name = find (\<lambda>f. basename v f = name) (getMarkdownFiles v)"

definition createNote :: "vault \<Rightarrow> string \<Rightarrow> vault" where
  "createNote v name =
     (case getFileByName v name of
        Some existing \<Rightarrow> v
      | None \<Rightarrow> vault_create v (name @ ''.md'') [])"

definition appendTo :: "vault \<Rightarrow> string \<Rightarrow> string \<Rightarrow> vault" where
  "appendTo v name text =
     (case getFileByName v name of
        None \<Rightarrow> v
      | Some file \<Rightarrow> vault_append v file (CHR 0x0A # text))"

definition readNote :: "vault \<Rightarrow> string \<Rightarrow> string option" where
  "readNote v name =
     (case getFileByName v name of
        None \<Rightarrow> None
      | Some file \<Rightarrow> Some (vault_read v file))"

text \<open>The loop of \<open>searchNotes\<close> over the files left, with the \<open>results\<close> pushed so far.\<close>

fun searchNotes_loop :: "vault \<Rightarrow> string \<Rightarrow> tfile list \<Rightarrow> string list \<Rightarrow> string list" where
  "searchNotes_loop v term [] results = results"
| "searchNotes_loop v term (file # files) results =
     (let content = vault_read v file in
      if includes_str (toLowerCase content) (toLowerCase term)
      then searchNotes_loop v term files (results @ [basename v file])
      else searchNotes_loop v term files results)"

definition searchNotes :: "vault \<Rightarrow> string \<Rightarrow> string list" where
  "searchNotes v term = searchNotes_loop v term (getMarkdownFiles v) []"

text \<open>\<open>handleCommand\<close> returns the reply and the vault it leaves. A prefix that matched with
  a pattern that did not falls through to the tests below it, as in the source.\<close>

definition handleCommand :: "vault \<Rightarrow> string \<Rightarrow> string \<times> vault" where
  "handleCommand v text =
     (let lower = trim (toLowerCase text) in
      if startsWith lower ''create note '' then
        (let title = trim (substring text (length ''create note ''))
         in (''created note '' @ title, createNote v title))
      else
        (case (if startsWith lower ''append to '' then match_append text else None) of
           Some (file, content) \<Rightarrow> (''appended to '' @ file, appendTo v file content)
         | None \<Rightarrow>
            if startsWith lower ''read note '' then
              (let title = trim (substring text (length ''read note ''))
               in (case readNote v title of Some content \<Rightarrow> content | None \<Rightarrow> ''note not found'', v))
            else if lower = ''list notes'' then
              (join (map (basename v) (getMarkdownFiles v)) '', '', v)
            else if startsWith lower ''search for '' then
              (let term = trim (substring text (length ''search for ''))
               in (join (searchNotes v term) '', '', v))
            else (''unknown command'', v)))"

subsection \<open>Parser and executor\<close>

text \<open>
  The source fuses the two stages the spec names. \<open>parse\<close> is the chain of tests of
  \<open>handleCommand\<close> and \<open>execute\<close> the bodies of its branches; \<open>handleCommand_parse_execute\<close>
  below shows that the split is exact.
\<close>

datatype command =
    CreateNote string
  | AppendToNote string string
  | ReadNote string
  | ListNotes
  | SearchNotes string
  | Unknown string

definition parse :: "string \<Rightarrow> command" where
  "parse text =
     (let lower = trim (toLowerCase text) in
      if startsWith lower ''create note '' then
        CreateNote (trim (substring text (length ''create note '')))
      else
        (case (if startsWith lower ''append to '' then match_append text else None) of
           Some (file, content) \<Rightarrow> AppendToNote file content
         | None \<Rightarrow>
            if startsWith lower ''read note '' then
              ReadNote (trim (substring text (length ''read note '')))
            else if lower = ''list notes'' then ListNotes
            else if startsWith lower ''search for '' then
              SearchNotes (trim (substring text (length ''search for '')))
            else Unknown text))"

fun execute :: "vault \<Rightarrow> command \<Rightarrow> string \<times> vault" where
  "execute v (CreateNote title) = (''created note '' @ title, createNote v title)"
| "execute v (AppendToNote file content) = (''appended to '' @ file, appendTo v file content)"
| "execute v (ReadNote title) =
     (case readNote v title of Some content \<Rightarrow> content | None \<Rightarrow> ''note not found'', v)"
| "execute v ListNotes = (join (map (basename v) (getMarkdownFiles v)) '', '', v)"
| "execute v (SearchNotes term) = (join (searchNotes v term) '', '', v)"
| "execute v (Unknown text) = (''unknown command'', v)"

section \<open>The request server\<close>

text \<open>
  The values \<open>JSON.parse\<close> returns. \<open>JSON.parse\<close> itself belongs to the runtime and is a
  parameter of the handler: \<open>None\<close> is the \<open>SyntaxError\<close> it throws. An object is the
  list of its own properties, each key once.
\<close>

datatype json =
    JNull
  | JBool bool
  | JNumber real
  | JString string
  | JArray "json list"
  | JObject "(string \<times> json) list"

datatype error = SyntaxError | TypeError

text \<open>The request as the listener reads it: \<open>req.method\<close>, \<open>req.url\<close> and the body, all chunks
  concatenated.\<close>

record request =
  http_method :: string
  url :: string
  body :: string

text \<open>What the handler did to \<open>res\<close>: the status code (200 unless set), the headers set and
  the values written, each kept as the value handed to \<open>JSON.stringify\<close>.\<close>

record response =
  statusCode :: nat
  headers :: "(string \<times> string) list"
  written :: "json list"

text \<open>\<open>body?.text\<close>: \<open>None\<close> is \<open>undefined\<close>. Only an object can have the property.\<close>

fun optional_text :: "json \<Rightarrow> json option" where
  "optional_text (JObject props) = map_of props ''text''"
| "optional_text _ = None"

fun truthy :: "json \<Rightarrow> bool" where
  "truthy JNull = False"
| "truthy (JBool b) = b"
| "truthy (JNumber n) = (n \<noteq> 0)"
| "truthy (JString s) = (s \<noteq> [])"
| "truthy (JArray xs) = True"
| "truthy (JObject props) = True"

text \<open>\<open>body?.text || ''\<close>\<close>

definition text_or_empty :: "json \<Rightarrow> json" where
  "text_or_empty b =
     (case optional_text b of
        Some t \<Rightarrow> if truthy t then t else JString []
      | None \<Rightarrow> JString [])"

text \<open>The call \<open>this.handleCommand(text)\<close> on whatever value \<open>text\<close> is at run time: a
  value that is not a string has no \<open>toLowerCase\<close>, and the first statement of
  \<open>handleCommand\<close> throws a \<open>TypeError\<close>.\<close>

fun handleCommand_call :: "vault \<Rightarrow> json \<Rightarrow> error + (string \<times> vault)" where
  "handleCommand_call v (JString text) = Inr (handleCommand v text)"
| "handleCommand_call v _ = Inl TypeError"

text \<open>The body of the \<open>try\<close> block, up to the result of \<open>handleCommand\<close>.\<close>

definition try_block :: "(string \<Rightarrow> json option) \<Rightarrow> vault \<Rightarrow> string \<Rightarrow> error + (string \<times> vault)" where
  "try_block JSON_parse v raw =
     (case JSON_parse raw of
        None \<Rightarrow> Inl SyntaxError
      | Some b \<Rightarrow> handleCommand_call v (text_or_empty b))"

definition request_listener :: "(string \<Rightarrow> json option) \<Rightarrow> vault \<Rightarrow> request \<Rightarrow> response \<times> vault" where
  "request_listener JSON_parse v req =
     (if http_method req = ''POST'' \<and> url req = ''/command'' then
        (case try_block JSON_parse v (body req) of
           Inr (result, v') \<Rightarrow>
             (\<lparr>statusCode = 200,
               headers = [(''Content-Type'', ''application/json'')],
               written = [JObject [(''result'', JString result)]]\<rparr>, v')
         | Inl e \<Rightarrow>
             (\<lparr>statusCode = 400,
               headers = [],
               written = [JObject [(''error'', JString ''bad request'')]]\<rparr>, v))
      else (\<lparr>statusCode = 404, headers = [], written = []\<rparr>, v))"

section \<open>Basic facts\<close>

lemma handleCommand_parse_execute: "handleCommand v text = execute v (parse text)"
  by (simp add: handleCommand_def parse_def Let_def split: option.split prod.split)

subsection \<open>Characters by their codes\<close>

lemma char_neq_code: "(c = CHR 0xD7) = ((of_char c :: nat) = 215)" "(c = CHR 0xF7) = ((of_char c :: nat) = 247)"
  by (simp_all flip: of_char_eq_iff [where ?'a = nat])

lemma code_toLowerCase_char:
  "(of_char (toLowerCase_char c) :: nat) =
     (if (65 \<le> (of_char c :: nat) \<and> (of_char c :: nat) \<le> 90)
         \<or> (192 \<le> (of_char c :: nat) \<and> (of_char c :: nat) \<le> 222 \<and> (of_char c :: nat) \<noteq> 215)
      then of_char c + 32 else of_char c)"
  by (simp add: toLowerCase_char_def code_in_def char_neq_code)

lemma code_canonicalize:
  "(of_char (canonicalize c) :: nat) =
     (if (97 \<le> (of_char c :: nat) \<and> (of_char c :: nat) \<le> 122)
         \<or> (224 \<le> (of_char c :: nat) \<and> (of_char c :: nat) \<le> 254 \<and> (of_char c :: nat) \<noteq> 247)
      then of_char c - 32 else of_char c)"
proof -
  have "(of_char c :: nat) - 32 < 256"
    using nat_of_char_less_256 [of c] by arith
  then show ?thesis
    by (simp add: canonicalize_def code_in_def char_neq_code)
qed

lemma lower_of_upper:
  fixes n :: nat
  defines "u \<equiv> (if (97 \<le> n \<and> n \<le> 122) \<or> (224 \<le> n \<and> n \<le> 254 \<and> n \<noteq> 247) then n - 32 else n)"
  shows "(if (65 \<le> u \<and> u \<le> 90) \<or> (192 \<le> u \<and> u \<le> 222 \<and> u \<noteq> 215) then u + 32 else u)
     = (if (65 \<le> n \<and> n \<le> 90) \<or> (192 \<le> n \<and> n \<le> 222 \<and> n \<noteq> 215) then n + 32 else n)"
  unfolding u_def by (auto split: if_splits)

lemma upper_of_lower:
  fixes n :: nat
  defines "l \<equiv> (if (65 \<le> n \<and> n \<le> 90) \<or> (192 \<le> n \<and> n \<le> 222 \<and> n \<noteq> 215) then n + 32 else n)"
  shows "(if (97 \<le> l \<and> l \<le> 122) \<or> (224 \<le> l \<and> l \<le> 254 \<and> l \<noteq> 247) then l - 32 else l)
     = (if (97 \<le> n \<and> n \<le> 122) \<or> (224 \<le> n \<and> n \<le> 254 \<and> n \<noteq> 247) then n - 32 else n)"
  unfolding l_def by (auto split: if_splits)

lemma toLowerCase_canonicalize: "toLowerCase_char (canonicalize c) = toLowerCase_char c"
proof -
  have "(of_char (toLowerCase_char (canonicalize c)) :: nat) = of_char (toLowerCase_char c)"
    unfolding code_toLowerCase_char [of "canonicalize c"] code_canonicalize
    unfolding code_toLowerCase_char [of c] by (rule lower_of_upper)
  then show ?thesis by simp
qed

lemma canonicalize_toLowerCase: "canonicalize (toLowerCase_char c) = canonicalize c"
proof -
  have "(of_char (canonicalize (toLowerCase_char c)) :: nat) = of_char (canonicalize c)"
    unfolding code_canonicalize [of "toLowerCase_char c"] code_toLowerCase_char
    unfolding code_canonicalize [of c] by (rule upper_of_lower)
  then show ?thesis by simp
qed

lemma canonicalize_eq_iff:
  "(canonicalize c = canonicalize d) = (toLowerCase_char c = toLowerCase_char d)"
  by (metis toLowerCase_canonicalize canonicalize_toLowerCase)

lemma isWhiteSpace_code:
  "isWhiteSpace c = ((of_char c :: nat) \<in> {9, 10, 11, 12, 13, 32, 160})"
  unfolding isWhiteSpace_def
  by (simp flip: of_char_eq_iff [where ?'a = nat])

lemma isWhiteSpace_toLowerCase_char: "isWhiteSpace (toLowerCase_char c) = isWhiteSpace c"
  unfolding isWhiteSpace_code code_toLowerCase_char by auto

lemma map_canonicalize_eq_iff:
  "(map canonicalize xs = map canonicalize ys) = (toLowerCase xs = toLowerCase ys)"
proof (induction xs arbitrary: ys)
  case Nil
  then show ?case by (simp add: toLowerCase_def)
next
  case (Cons x xs)
  then show ?case
    by (cases ys) (simp_all add: toLowerCase_def canonicalize_eq_iff)
qed

lemma toLowerCase_append_to: "toLowerCase ''append to '' = ''append to ''"
  by (simp add: toLowerCase_def toLowerCase_char_def code_in_def)

lemma toLowerCase_append: "toLowerCase (xs @ ys) = toLowerCase xs @ toLowerCase ys"
  by (simp add: toLowerCase_def)

lemma length_toLowerCase: "length (toLowerCase s) = length s"
  by (simp add: toLowerCase_def)

lemma trim_keeps_prefix:
  assumes "p \<noteq> []" and "\<not> isWhiteSpace (hd p)" and "\<exists>c\<in>set r. \<not> isWhiteSpace c"
  shows "\<exists>r'. trim (p @ r) = p @ r'"
proof -
  from assms(3) obtain ys x zs where r: "r = ys @ x # zs" and x: "\<not> isWhiteSpace x"
    and zs: "\<forall>z\<in>set zs. isWhiteSpace z"
    using split_list_last_prop [of r "\<lambda>c. \<not> isWhiteSpace c"] by auto
  have front: "dropWhile isWhiteSpace (p @ r) = p @ r"
    using assms(1,2) by (simp add: dropWhile_eq_self_iff)
  have "rev (p @ r) = rev zs @ (x # rev ys @ rev p)"
    by (simp add: r)
  moreover have "dropWhile isWhiteSpace (rev zs @ (x # rev ys @ rev p))
      = dropWhile isWhiteSpace (x # rev ys @ rev p)"
    by (rule dropWhile_append2) (use zs in simp)
  ultimately have "dropWhile isWhiteSpace (rev (p @ r)) = x # rev ys @ rev p"
    using x by simp
  then have "trim (p @ r) = p @ (ys @ [x])"
    by (simp add: trim_def front)
  then show ?thesis by blast
qed

lemma match_content_skip:
  assumes "\<forall>c\<in>set ws. isWhiteSpace c" and "content \<noteq> []"
    and "\<forall>c\<in>set content. \<not> isLineTerminator c"
    and "\<not> isWhiteSpace (hd content) \<or> length content = 1"
  shows "match_content (ws @ content) = Some content"
  using assms(1)
proof (induction ws)
  case Nil
  from assms(2) obtain c cs where c: "content = c # cs" by (cases content) auto
  show ?case
  proof (cases "isWhiteSpace c")
    case True
    with assms(4) c have "cs = []" by simp
    with True c assms(3) show ?thesis by (simp add: match_dots_end_def)
  next
    case False
    with c assms(3) show ?thesis by (simp add: match_dots_end_def list_all_iff)
  qed
next
  case (Cons w ws)
  then show ?case by simp
qed

lemma match_file_earliest:
  assumes "\<forall>c\<in>set fl. \<not> isLineTerminator c"
    and "match_content rest = Some content"
    and "acc @ fl \<noteq> []"
    and "\<forall>f' r'. fl = f' @ CHR '':'' # r' \<and> acc @ f' \<noteq> [] \<longrightarrow> match_content (r' @ CHR '':'' # rest) = None"
  shows "match_file acc (fl @ CHR '':'' # rest) = Some (acc @ fl, content)"
  using assms(1,3,4)
proof (induction fl arbitrary: acc)
  case Nil
  then show ?case by (simp add: assms(2))
next
  case (Cons a fl)
  have early: "acc \<noteq> [] \<and> a = CHR '':'' \<Longrightarrow> match_content (fl @ CHR '':'' # rest) = None"
    using Cons.prems(3) [rule_format, of "[]" fl] by simp
  have later: "\<forall>f' r'. fl = f' @ CHR '':'' # r' \<and> (acc @ [a]) @ f' \<noteq> []
      \<longrightarrow> match_content (r' @ CHR '':'' # rest) = None"
  proof (intro allI impI)
    fix f' r' assume "fl = f' @ CHR '':'' # r' \<and> (acc @ [a]) @ f' \<noteq> []"
    then show "match_content (r' @ CHR '':'' # rest) = None"
      using Cons.prems(3) [rule_format, of "a # f'" r'] by simp
  qed
  have "match_file (acc @ [a]) (fl @ CHR '':'' # rest) = Some ((acc @ [a]) @ fl, content)"
    using Cons.prems(1) later by (intro Cons.IH) simp_all
  then show ?case
    using Cons.prems(1) early by (auto split: option.splits)
qed

lemma match_file_colon: "match_file acc s = Some fc \<Longrightarrow> CHR '':'' \<in> set s"
  by (induction acc s rule: match_file.induct) (auto split: if_splits option.splits)

lemma parse_match_append:
  assumes "match_append text = Some (file, content)"
  shows "parse text = AppendToNote file content"
proof -
  from assms have len: "length text \<ge> 10"
    and kw: "map canonicalize (take 10 text) = map canonicalize ''append to ''"
    and mf: "match_file [] (drop 10 text) = Some (file, content)"
    by (simp_all add: match_append_def split: if_splits)
  from kw have low: "toLowerCase (take 10 text) = ''append to ''"
    by (simp only: map_canonicalize_eq_iff toLowerCase_append_to)
  have colon: "CHR '':'' \<in> set (toLowerCase (drop 10 text))"
    using match_file_colon [OF mf]
    by (force simp add: toLowerCase_def toLowerCase_char_def code_in_def)
  have "\<exists>c\<in>set (toLowerCase (drop 10 text)). \<not> isWhiteSpace c"
    using colon by (rule bexI [rotated]) (simp add: isWhiteSpace_def)
  then obtain r' where "trim (''append to '' @ toLowerCase (drop 10 text)) = ''append to '' @ r'"
    using trim_keeps_prefix [of "''append to ''" "toLowerCase (drop 10 text)"]
    by (auto simp add: isWhiteSpace_def)
  moreover have "toLowerCase text = ''append to '' @ toLowerCase (drop 10 text)"
    using low toLowerCase_append [of "take 10 text" "drop 10 text"] by simp
  ultimately have lower: "trim (toLowerCase text) = ''append to '' @ r'"
    by simp
  show ?thesis
    by (simp add: parse_def lower startsWith_def assms)
qed

subsection \<open>The pattern and the prefix tests\<close>

lemma match_append_earliest:
  assumes kw: "map canonicalize kw = map canonicalize ''append to ''"
    and "fl \<noteq> []" and "\<forall>c\<in>set fl. \<not> isLineTerminator c"
    and "match_content rest = Some content"
    and "\<forall>f' r'. fl = f' @ CHR '':'' # r' \<and> f' \<noteq> [] \<longrightarrow> match_content (r' @ CHR '':'' # rest) = None"
  shows "match_append (kw @ fl @ CHR '':'' # rest) = Some (fl, content)"
proof -
  from kw have "length (map canonicalize kw) = length (map canonicalize ''append to '')"
    by (rule arg_cong)
  then have len: "length kw = 10" by simp
  have mf: "match_file [] (fl @ CHR '':'' # rest) = Some ([] @ fl, content)"
    using assms(2-5) by (intro match_file_earliest) simp_all
  have t: "take 10 (kw @ fl @ CHR '':'' # rest) = kw"
    and d: "drop 10 (kw @ fl @ CHR '':'' # rest) = fl @ CHR '':'' # rest"
    and l: "10 \<le> length (kw @ fl @ CHR '':'' # rest)"
    using len by simp_all
  show ?thesis
    unfolding match_append_def t d using l mf by (simp only: kw simp_thms if_True append_Nil)
qed

text \<open>What the pattern captures as content is always the end of the input, is not empty
  and holds no line terminator.\<close>

lemma match_content_captured:
  "match_content r = Some c \<Longrightarrow>
     suffix c r \<and> c \<noteq> [] \<and> (\<forall>x\<in>set c. \<not> isLineTerminator x)"
proof (induction r)
  case Nil
  then show ?case by simp
next
  case (Cons a r)
  show ?case
  proof (cases "isWhiteSpace a \<and> match_content r \<noteq> None")
    case True
    with Cons.prems have "match_content r = Some c" by auto
    then show ?thesis using Cons.IH by (simp add: suffix_Cons)
  next
    case False
    with Cons.prems have "match_dots_end (a # r) = Some c"
      by (auto split: if_splits option.splits)
    then show ?thesis
      by (auto simp add: match_dots_end_def list_all_iff split: if_splits)
  qed
qed

lemma match_file_captured:
  "match_file acc s = Some (f, c) \<Longrightarrow>
     suffix c s \<and> c \<noteq> [] \<and> (\<forall>x\<in>set c. \<not> isLineTerminator x)"
proof (induction acc s rule: match_file.induct)
  case (1 acc)
  then show ?case by simp
next
  case (2 acc a s)
  show ?case
  proof (cases "if acc \<noteq> [] \<and> a = CHR '':'' then match_content s else None")
    case None
    with "2.prems" have "\<not> isLineTerminator a" and "match_file (acc @ [a]) s = Some (f, c)"
      by (simp_all split: if_splits)
    with None "2.IH" show ?thesis by (simp add: suffix_Cons)
  next
    case (Some r)
    with "2.prems" have "r = c" by simp
    with Some have "match_content s = Some c" by (simp split: if_splits)
    then show ?thesis using match_content_captured [of s c] by (simp add: suffix_Cons)
  qed
qed

lemma parse_append_captured:
  assumes "parse txt = AppendToNote f c"
  shows "suffix c txt \<and> c \<noteq> [] \<and> (\<forall>x\<in>set c. \<not> isLineTerminator x)"
proof -
  from assms have "match_append txt = Some (f, c)"
    by (auto simp add: parse_def Let_def split: if_splits option.splits)
  then have "match_file [] (drop 10 txt) = Some (f, c)"
    by (simp add: match_append_def split: if_splits)
  then have "suffix c (drop 10 txt) \<and> c \<noteq> [] \<and> (\<forall>x\<in>set c. \<not> isLineTerminator x)"
    by (rule match_file_captured)
  moreover have "suffix (drop 10 txt) txt" by (rule suffix_drop)
  ultimately show ?thesis by (blast intro: suffix_order.trans)
qed

text \<open>A text that starts with a keyword, in any case, and goes on with something other
  than white space is parsed as that command with the rest of the text, trimmed.\<close>

lemma lower_keeps_keyword:
  assumes "toLowerCase kw = p" and "p \<noteq> []" and "\<not> isWhiteSpace (hd p)"
    and "\<exists>c\<in>set rest. \<not> isWhiteSpace c"
  shows "\<exists>r'. trim (toLowerCase (kw @ rest)) = p @ r'"
proof -
  from assms(4) have "\<exists>c\<in>set (toLowerCase rest). \<not> isWhiteSpace c"
    by (simp add: toLowerCase_def isWhiteSpace_toLowerCase_char)
  then show ?thesis
    using trim_keeps_prefix [OF assms(2,3), of "toLowerCase rest"]
    by (simp add: toLowerCase_append assms(1))
qed

lemma keyword_length: "toLowerCase kw = p \<Longrightarrow> length kw = length p"
  using length_toLowerCase [of kw] by simp

lemma parse_create_note:
  assumes "toLowerCase kw = ''create note ''" and "\<exists>c\<in>set rest. \<not> isWhiteSpace c"
  shows "parse (kw @ rest) = CreateNote (trim rest)"
proof -
  obtain r' where "trim (toLowerCase (kw @ rest)) = ''create note '' @ r'"
    using lower_keeps_keyword [OF assms(1) _ _ assms(2)] by (auto simp add: isWhiteSpace_def)
  moreover have "length kw = 12"
    using keyword_length [OF assms(1)] by simp
  ultimately show ?thesis
    by (simp add: parse_def startsWith_def substring_def)
qed

lemma parse_read_note:
  assumes "toLowerCase kw = ''read note ''" and "\<exists>c\<in>set rest. \<not> isWhiteSpace c"
  shows "parse (kw @ rest) = ReadNote (trim rest)"
proof -
  obtain r' where "trim (toLowerCase (kw @ rest)) = ''read note '' @ r'"
    using lower_keeps_keyword [OF assms(1) _ _ assms(2)] by (auto simp add: isWhiteSpace_def)
  moreover have "length kw = 10"
    using keyword_length [OF assms(1)] by simp
  ultimately show ?thesis
    by (simp add: parse_def startsWith_def substring_def)
qed

lemma parse_search_for:
  assumes "toLowerCase kw = ''search for ''" and "\<exists>c\<in>set rest. \<not> isWhiteSpace c"
  shows "parse (kw @ rest) = SearchNotes (trim rest)"
proof -
  obtain r' where "trim (toLowerCase (kw @ rest)) = ''search for '' @ r'"
    using lower_keeps_keyword [OF assms(1) _ _ assms(2)] by (auto simp add: isWhiteSpace_def)
  moreover have "length kw = 11"
    using keyword_length [OF assms(1)] by simp
  ultimately show ?thesis
    by (simp add: parse_def startsWith_def substring_def)
qed

lemma trim_ends:
  assumes "trim s \<noteq> []"
  shows "\<not> isWhiteSpace (hd (trim s)) \<and> \<not> isWhiteSpace (last (trim s))"
proof -
  let ?d = "dropWhile isWhiteSpace s"
  have ne: "dropWhile isWhiteSpace (rev ?d) \<noteq> []"
    using assms by (simp add: trim_def)
  then have l: "\<not> isWhiteSpace (last (trim s))"
    using hd_dropWhile [OF ne] by (simp add: trim_def last_rev)
  from ne have d: "?d \<noteq> []" by (cases "?d") simp_all
  have "\<exists>zs. ?d = trim s @ zs"
    unfolding trim_def
    by (metis rev_append rev_rev_ident takeWhile_dropWhile_id)
  then have "hd (trim s) = hd ?d"
    using assms by auto
  then show ?thesis
    using l hd_dropWhile [OF d] by simp
qed

lemma parse_trimmed_argument:
  assumes "parse txt = CreateNote t \<or> parse txt = ReadNote t \<or> parse txt = SearchNotes t"
  shows "\<exists>s. t = trim s"
  using assms by (auto simp add: parse_def Let_def split: if_splits option.splits)

subsection \<open>The store operations\<close>

lemma getFileByName_None: "(getFileByName v name = None) = (name \<notin> fst ` set v)"
proof -
  have "(getFileByName v name = None) = (\<forall>i<length v. fst (v ! i) \<noteq> name)"
    by (auto simp add: getFileByName_def getMarkdownFiles_def basename_def find_None_iff)
  also have "\<dots> = (name \<notin> fst ` set v)"
    by (force simp add: set_conv_nth)
  finally show ?thesis .
qed

lemma getFileByName_Some:
  "(getFileByName v name = Some i) =
     (i < length v \<and> fst (v ! i) = name \<and> (\<forall>j<i. fst (v ! j) \<noteq> name))"
  unfolding getFileByName_def getMarkdownFiles_def basename_def find_Some_iff
  by (rule iffI) (auto intro: exI [of _ i])

lemma createNote_existing: "name \<in> fst ` set v \<Longrightarrow> createNote v name = v"
  using getFileByName_None [of v name] by (auto simp add: createNote_def split: option.splits)

lemma createNote_new: "name \<notin> fst ` set v \<Longrightarrow> createNote v name = v @ [(name, [])]"
  using getFileByName_None [of v name]
  by (simp add: createNote_def vault_create_def suffix_def split: option.splits)

lemma appendTo_missing: "name \<notin> fst ` set v \<Longrightarrow> appendTo v name txt = v"
  using getFileByName_None [of v name] by (simp add: appendTo_def)

lemma appendTo_first:
  assumes "i < length v" and "v ! i = (name, A)" and "\<forall>j<i. fst (v ! j) \<noteq> name"
  shows "appendTo v name txt = v[i := (name, A @ CHR 0x0A # txt)]"
proof -
  have "getFileByName v name = Some i"
    using assms by (simp add: getFileByName_Some)
  then show ?thesis
    using assms(2) by (simp add: appendTo_def vault_append_def)
qed

lemma readNote_missing: "name \<notin> fst ` set v \<Longrightarrow> readNote v name = None"
  using getFileByName_None [of v name] by (simp add: readNote_def)

lemma readNote_first:
  assumes "i < length v" and "v ! i = (name, A)" and "\<forall>j<i. fst (v ! j) \<noteq> name"
  shows "readNote v name = Some A"
proof -
  have "getFileByName v name = Some i"
    using assms by (simp add: getFileByName_Some)
  then show ?thesis
    using assms(2) by (simp add: readNote_def vault_read_def)
qed

lemma map_fst_appendTo: "map fst (appendTo v name txt) = map fst v"
proof (cases "getFileByName v name")
  case None
  then show ?thesis by (simp add: appendTo_def)
next
  case (Some i)
  then have "i < length v" by (simp add: getFileByName_Some)
  then show ?thesis
    using Some by (simp add: appendTo_def vault_append_def map_update list_update_same_conv)
qed

lemma prefix_createNote: "prefix v (createNote v name)"
  by (simp add: createNote_def vault_create_def split: option.splits)

lemma startsWith_prefix: "startsWith s p = prefix p s"
  unfolding startsWith_def prefix_def
  by (metis append_eq_conv_conj append_take_drop_id)

lemma includes_str_sublist: "includes_str s t = sublist t s"
  by (induction s) (simp_all add: sublist_Cons_right startsWith_prefix)

lemma searchNotes_loop_filter:
  "\<forall>f\<in>set files. f < length v \<Longrightarrow>
   searchNotes_loop v term files results =
     results @ map (basename v)
       (filter (\<lambda>f. sublist (toLowerCase term) (toLowerCase (vault_read v f))) files)"
  by (induction files arbitrary: results) (simp_all add: includes_str_sublist Let_def)

lemma map_nth_upt: "map (\<lambda>i. g (v ! i)) (filter (\<lambda>i. P (v ! i)) [0..<length v]) = map g (filter P v)"
proof -
  have "map g (filter P (map ((!) v) [0..<length v])) = map g (filter P v)"
    by (simp add: map_nth)
  then show ?thesis by (simp add: filter_map comp_def)
qed

lemma searchNotes_filter:
  "searchNotes v term =
     map fst (filter (\<lambda>note. sublist (toLowerCase term) (toLowerCase (snd note))) v)"
proof -
  have "searchNotes v term = map (basename v)
       (filter (\<lambda>f. sublist (toLowerCase term) (toLowerCase (vault_read v f))) [0..<length v])"
    by (simp add: searchNotes_def getMarkdownFiles_def searchNotes_loop_filter)
  also have "\<dots> = map fst (filter (\<lambda>note. sublist (toLowerCase term) (toLowerCase (snd note))) v)"
    unfolding basename_def vault_read_def
    by (rule map_nth_upt [of fst v "\<lambda>note. sublist (toLowerCase term) (toLowerCase (snd note))"])
  finally show ?thesis .
qed

lemma basenames: "map (basename v) (getMarkdownFiles v) = map fst v"
proof -
  have "map (basename v) [0..<length v] = map (\<lambda>i. fst (v ! i)) (filter (\<lambda>i. True) [0..<length v])"
    by (simp add: basename_def)
  also have "\<dots> = map fst (filter (\<lambda>_. True) v)"
    by (rule map_nth_upt)
  finally show ?thesis by (simp add: getMarkdownFiles_def)
qed

subsection \<open>The text handed to the handler\<close>

lemma text_or_empty_not_string:
  "(\<forall>s. text_or_empty b \<noteq> JString s) =
     (\<exists>t. optional_text b = Some t \<and> truthy t \<and> (\<forall>s. t \<noteq> JString s))"
  by (auto simp add: text_or_empty_def split: option.splits)

section \<open>The claims\<close>

text \<open>
  Claim C1, as stated, at a concrete request. The claim: a POST to \<open>/command\<close> gets the
  400 response exactly when the body is not JSON, and a failure raised while the command
  is handled still gets the 200 response. The body \<open>{"text": 5}\<close> is JSON; its text is a
  number, \<open>text.toLowerCase\<close> is not a function, the \<open>TypeError\<close> is raised inside the
  \<open>try\<close> block and the \<open>catch\<close> answers 400.
\<close>

theorem C1_counterexample:
  \<open>[''{"text": 5}'' \<mapsto> JObject [(''text'', JNumber 5)]] ''{"text": 5}'' \<noteq> None
   \<and> request_listener [''{"text": 5}'' \<mapsto> JObject [(''text'', JNumber 5)]] [(''Foo'', ''A'')]
        \<lparr>http_method = ''POST'', url = ''/command'', body = ''{"text": 5}''\<rparr>
     = (\<lparr>statusCode = 400, headers = [],
          written = [JObject [(''error'', JString ''bad request'')]]\<rparr>, [(''Foo'', ''A'')])\<close>
  by (simp add: request_listener_def try_block_def text_or_empty_def)

text \<open>
  Claim C1, amended. For every POST to \<open>/command\<close> the 400 response with
  \<open>{"error": "bad request"}\<close> is produced exactly when \<open>JSON.parse\<close> fails or the
  handling of the command raises, which in this model is the case of a text that is not a
  string; the store is left as it was. In every other case the response is 200 with
  \<open>{"result": r}\<close>, \<open>r\<close> the reply of \<open>handleCommand\<close> to the text (the empty string
  when the text is absent or falsy), and the store is the one \<open>handleCommand\<close> leaves.
\<close>

theorem C1_bad_request:
  assumes "http_method req = ''POST''" and "url req = ''/command''"
  shows "(JSON_parse (body req) = None \<longrightarrow>
            request_listener JSON_parse v req
              = (\<lparr>statusCode = 400, headers = [],
                   written = [JObject [(''error'', JString ''bad request'')]]\<rparr>, v))
       \<and> (\<forall>b. JSON_parse (body req) = Some b \<and> (\<forall>s. text_or_empty b \<noteq> JString s) \<longrightarrow>
            request_listener JSON_parse v req
              = (\<lparr>statusCode = 400, headers = [],
                   written = [JObject [(''error'', JString ''bad request'')]]\<rparr>, v))
       \<and> (\<forall>b s. JSON_parse (body req) = Some b \<and> text_or_empty b = JString s \<longrightarrow>
            request_listener JSON_parse v req
              = (\<lparr>statusCode = 200, headers = [(''Content-Type'', ''application/json'')],
                   written = [JObject [(''result'', JString (fst (handleCommand v s)))]]\<rparr>,
                 snd (handleCommand v s)))"
proof (intro conjI allI impI)
  assume "JSON_parse (body req) = None"
  then show "request_listener JSON_parse v req
      = (\<lparr>statusCode = 400, headers = [],
           written = [JObject [(''error'', JString ''bad request'')]]\<rparr>, v)"
    using assms by (simp add: request_listener_def try_block_def)
next
  fix b
  assume b: "JSON_parse (body req) = Some b \<and> (\<forall>s. text_or_empty b \<noteq> JString s)"
  then have "handleCommand_call v (text_or_empty b) = Inl TypeError"
    by (cases "text_or_empty b") simp_all
  then show "request_listener JSON_parse v req
      = (\<lparr>statusCode = 400, headers = [],
           written = [JObject [(''error'', JString ''bad request'')]]\<rparr>, v)"
    using assms b by (simp add: request_listener_def try_block_def)
next
  fix b s
  assume "JSON_parse (body req) = Some b \<and> text_or_empty b = JString s"
  then show "request_listener JSON_parse v req
      = (\<lparr>statusCode = 200, headers = [(''Content-Type'', ''application/json'')],
           written = [JObject [(''result'', JString (fst (handleCommand v s)))]]\<rparr>,
         snd (handleCommand v s))"
    using assms by (simp add: request_listener_def try_block_def split: prod.splits)
qed

text \<open>C1 at three requests: a body that is not JSON, a text that is an array, and the
  spec's \<open>{"text":"list notes"}\<close> on the notes A and B.\<close>

theorem C1_bad_request_witness:
  \<open>request_listener Map.empty [(''A'', []), (''B'', [])]
       \<lparr>http_method = ''POST'', url = ''/command'', body = ''not json''\<rparr>
     = (\<lparr>statusCode = 400, headers = [],
          written = [JObject [(''error'', JString ''bad request'')]]\<rparr>, [(''A'', []), (''B'', [])])
   \<and> request_listener [''{"text": [1]}'' \<mapsto> JObject [(''text'', JArray [JNumber 1])]] [(''A'', []), (''B'', [])]
       \<lparr>http_method = ''POST'', url = ''/command'', body = ''{"text": [1]}''\<rparr>
     = (\<lparr>statusCode = 400, headers = [],
          written = [JObject [(''error'', JString ''bad request'')]]\<rparr>, [(''A'', []), (''B'', [])])
   \<and> request_listener [''{"text":"list notes"}'' \<mapsto> JObject [(''text'', JString ''list notes'')]]
       [(''A'', []), (''B'', [])]
       \<lparr>http_method = ''POST'', url = ''/command'', body = ''{"text":"list notes"}''\<rparr>
     = (\<lparr>statusCode = 200, headers = [(''Content-Type'', ''application/json'')],
          written = [JObject [(''result'', JString ''A, B'')]]\<rparr>, [(''A'', []), (''B'', [])])\<close>
proof -
  let ?v = "[(''A'', []), (''B'', [])] :: vault"
  have h: "handleCommand ?v ''list notes'' = (''A, B'', ?v)"
    by code_simp
  have t1: \<open>text_or_empty (JObject [(''text'', JArray [JNumber 1])]) = JArray [JNumber 1]\<close>
    by (simp add: text_or_empty_def)
  have t2: \<open>text_or_empty (JObject [(''text'', JString ''list notes'')]) = JString ''list notes''\<close>
    by (simp add: text_or_empty_def)
  show ?thesis
    using
      C1_bad_request [of "\<lparr>http_method = ''POST'', url = ''/command'', body = ''not json''\<rparr>"
        Map.empty ?v, THEN conjunct1]
      C1_bad_request [of \<open>\<lparr>http_method = ''POST'', url = ''/command'', body = ''{"text": [1]}''\<rparr>\<close>
        \<open>[''{"text": [1]}'' \<mapsto> JObject [(''text'', JArray [JNumber 1])]]\<close> ?v,
        THEN conjunct2, THEN conjunct1, rule_format, of "JObject [(''text'', JArray [JNumber 1])]"]
      C1_bad_request [of \<open>\<lparr>http_method = ''POST'', url = ''/command'', body = ''{"text":"list notes"}''\<rparr>\<close>
        \<open>[''{"text":"list notes"}'' \<mapsto> JObject [(''text'', JString ''list notes'')]]\<close> ?v,
        THEN conjunct2, THEN conjunct2, rule_format,
        of "JObject [(''text'', JString ''list notes'')]" "''list notes''"]
    by (simp add: h t1 t2)
qed

text \<open>
  Claim C2: when the lowercased, trimmed copy of the text starts with \<open>create note\<close>,
  \<open>read note\<close> or \<open>search for\<close> (and a blank), the argument of the command is the text
  after that prefix, trimmed. The source tests the prefix on the trimmed copy and then
  cuts the argument out of the untrimmed text at the length of the prefix. After two
  leading blanks the cut falls inside the keyword: the title of the note is \<open>e Foo\<close>, not
  \<open>Foo\<close>. (\<open>parse_create_note\<close>, \<open>parse_read_note\<close> and \<open>parse_search_for\<close> above are the
  claim for a text that starts with the keyword.)
\<close>

theorem C2_title_cut_from_untrimmed_text:
  "parse ''  create note Foo'' = CreateNote ''e Foo''
   \<and> parse ''  read note Foo'' = ReadNote ''e Foo''
   \<and> parse ''  search for Foo'' = SearchNotes ''r Foo''"
  by code_simp

text \<open>
  Claim C3, as stated, at a concrete text. The claim: the content captured by the append
  pattern runs to the end of the input and may hold any character, a newline included.
  In the pattern \<open>.\<close> matches no line terminator and \<open>$\<close> is the end of the input
  only: a content with a newline in it does not match, and the text is an unknown command.
\<close>

theorem C3_counterexample:
  "parse ''append to a: b\<newline>c'' = Unknown ''append to a: b\<newline>c''"
  by code_simp

text \<open>
  Claim C3, amended. For every text \<open>append to <file>:<blanks><content>\<close>, the keywords
  in any case and at the very start of the text, where the file is not empty and has no
  colon and no line terminator, and the content starts with a character that is not white
  space and has no line terminator, \<open>parse\<close> yields \<open>AppendToNote\<close> with that file and
  that content: the content runs to the end of the input and may hold any character but a
  line terminator. And whatever the text, a content that \<open>parse\<close> captures is a part of
  the text that runs to its end, is not empty and holds no line terminator.
\<close>

theorem C3_append_content_to_end:
  "(map canonicalize kw = map canonicalize ''append to ''
      \<and> fl \<noteq> [] \<and> (\<forall>c\<in>set fl. c \<noteq> CHR '':'' \<and> \<not> isLineTerminator c)
      \<and> (\<forall>c\<in>set ws. isWhiteSpace c)
      \<and> content \<noteq> [] \<and> \<not> isWhiteSpace (hd content)
      \<and> (\<forall>c\<in>set content. \<not> isLineTerminator c)
    \<longrightarrow> parse (kw @ fl @ CHR '':'' # ws @ content) = AppendToNote fl content)
   \<and> (parse txt = AppendToNote f c
    \<longrightarrow> suffix c txt \<and> c \<noteq> [] \<and> (\<forall>x\<in>set c. \<not> isLineTerminator x))"
proof (intro conjI impI)
  assume a: "map canonicalize kw = map canonicalize ''append to ''
      \<and> fl \<noteq> [] \<and> (\<forall>c\<in>set fl. c \<noteq> CHR '':'' \<and> \<not> isLineTerminator c)
      \<and> (\<forall>c\<in>set ws. isWhiteSpace c)
      \<and> content \<noteq> [] \<and> \<not> isWhiteSpace (hd content)
      \<and> (\<forall>c\<in>set content. \<not> isLineTerminator c)"
  then have fl: "\<forall>c\<in>set fl. c \<noteq> CHR '':'' \<and> \<not> isLineTerminator c" by simp
  have "match_content (ws @ content) = Some content"
    using a by (intro match_content_skip) simp_all
  moreover have "\<forall>f' r'. fl = f' @ CHR '':'' # r' \<and> f' \<noteq> []
      \<longrightarrow> match_content (r' @ CHR '':'' # ws @ content) = None"
  proof (intro allI impI)
    fix f' r' assume "fl = f' @ CHR '':'' # r' \<and> f' \<noteq> []"
    then have "CHR '':'' \<in> set fl" by simp
    with fl show "match_content (r' @ CHR '':'' # ws @ content) = None" by blast
  qed
  moreover have "\<forall>c\<in>set fl. \<not> isLineTerminator c"
    using fl by simp
  moreover have "map canonicalize kw = map canonicalize ''append to ''" and "fl \<noteq> []"
    using a by simp_all
  ultimately have "match_append (kw @ fl @ CHR '':'' # ws @ content) = Some (fl, content)"
    by (intro match_append_earliest)
  then show "parse (kw @ fl @ CHR '':'' # ws @ content) = AppendToNote fl content"
    by (rule parse_match_append)
next
  assume "parse txt = AppendToNote f c"
  then show "suffix c txt" and "c \<noteq> []" and "\<forall>x\<in>set c. \<not> isLineTerminator x"
    using parse_append_captured [of "txt" f c] by simp_all
qed

text \<open>C3 at a text with mixed-case keywords, a colon inside the content and a blank at its
  end; and at a text with a newline after the second colon, where the content captured is
  the last line only.\<close>

theorem C3_append_content_to_end_witness:
  "parse ''Append To Foo: hello: world, again '' = AppendToNote ''Foo'' ''hello: world, again ''
   \<and> parse ''append to a: b:\<newline>c'' = AppendToNote ''a: b'' ''c''
   \<and> suffix ''c'' ''append to a: b:\<newline>c''"
proof -
  have h1: "map canonicalize ''Append To '' = map canonicalize ''append to ''" by code_simp
  have h2: "''Foo'' \<noteq> []" by simp
  have h3: "\<forall>c\<in>set ''Foo''. c \<noteq> CHR '':'' \<and> \<not> isLineTerminator c" by code_simp
  have h4: "\<forall>c\<in>set '' ''. isWhiteSpace c" by code_simp
  have h5: "''hello: world, again '' \<noteq> []" by simp
  have h6: "\<not> isWhiteSpace (hd ''hello: world, again '')" by code_simp
  have h7: "\<forall>c\<in>set ''hello: world, again ''. \<not> isLineTerminator c" by code_simp
  have p: "parse ''append to a: b:\<newline>c'' = AppendToNote ''a: b'' ''c''" by code_simp
  have "parse (''Append To '' @ ''Foo'' @ CHR '':'' # '' '' @ ''hello: world, again '')
      = AppendToNote ''Foo'' ''hello: world, again ''"
    using C3_append_content_to_end [of "''Append To ''" "''Foo''" "'' ''" "''hello: world, again ''",
        THEN conjunct1] h1 h2 h3 h4 h5 h6 h7
    by blast
  moreover have "suffix ''c'' ''append to a: b:\<newline>c''"
    using C3_append_content_to_end [of _ _ _ _ "''append to a: b:\<newline>c''" "''a: b''" "''c''",
        THEN conjunct2] p
    by blast
  ultimately show ?thesis using p by simp
qed

text \<open>
  Claim C4: every argument of a parsed command is free of leading and trailing white
  space. \<open>CreateNote\<close>, \<open>ReadNote\<close> and \<open>SearchNotes\<close> are built with \<open>trim\<close>
  (\<open>parse_trimmed_argument\<close>, \<open>trim_ends\<close>); the append branch takes the two groups of
  the pattern as they are. The file keeps the blanks around it and the content the blanks
  at its end, so the note \<open>Foo\<close> is looked up under the name \<open>Foo\<close> with blanks.
\<close>

theorem C4_append_arguments_not_trimmed:
  "parse ''append to  Foo : hi '' = AppendToNote '' Foo '' ''hi ''"
  by code_simp

text \<open>
  Claim C5. \<open>AppendToNote\<close> on a title no note has: the store is unchanged, nothing is
  raised, and the reply is still \<open>appended to <title>\<close>. On a title some note has, the
  first such note in enumeration order (the note, titles being unique), with content
  \<open>A\<close>: afterwards its content is \<open>A\<close>, a newline, and the appended content, no other
  note is touched, and the reply is the same.
\<close>

theorem C5_append_to_note:
  "(title \<notin> fst ` set v \<longrightarrow>
      execute v (AppendToNote title content) = (''appended to '' @ title, v))
   \<and> (\<forall>i A. i < length v \<and> v ! i = (title, A) \<and> (\<forall>j<i. fst (v ! j) \<noteq> title) \<longrightarrow>
      execute v (AppendToNote title content)
        = (''appended to '' @ title, v[i := (title, A @ CHR 0x0A # content)]))"
  by (simp add: appendTo_missing appendTo_first)

text \<open>C5 at the spec's example: \<open>hello world\<close> appended to the note Foo of content A,
  and to a note that does not exist.\<close>

theorem C5_append_to_note_witness:
  "execute [(''Foo'', ''A'')] (AppendToNote ''Foo'' ''hello world'')
     = (''appended to Foo'', [(''Foo'', ''A\<newline>hello world'')])
   \<and> execute [(''Foo'', ''A'')] (AppendToNote ''Bar'' ''hello world'')
     = (''appended to Bar'', [(''Foo'', ''A'')])"
proof -
  have "execute [(''Foo'', ''A'')] (AppendToNote ''Foo'' ''hello world'')
     = (''appended to '' @ ''Foo'', [(''Foo'', ''A'')][0 := (''Foo'', ''A'' @ CHR 0x0A # ''hello world'')])"
    using C5_append_to_note [of "''Foo''" "[(''Foo'', ''A'')]" "''hello world''",
        THEN conjunct2, rule_format, of 0 "''A''"]
    by simp
  moreover have "execute [(''Foo'', ''A'')] (AppendToNote ''Bar'' ''hello world'')
     = (''appended to '' @ ''Bar'', [(''Foo'', ''A'')])"
    using C5_append_to_note [of "''Bar''" "[(''Foo'', ''A'')]" "''hello world''", THEN conjunct1]
    by simp
  ultimately show ?thesis by simp
qed

text \<open>
  Claim C6. \<open>CreateNote\<close> on a title some note has leaves the store unchanged and replies
  \<open>created note <title>\<close>; on a title no note has it adds a note of that title and empty
  content and gives the same reply. Executing it a second time gives the same reply and
  the same store as executing it once.
\<close>

theorem C6_create_note:
  "(title \<in> fst ` set v \<longrightarrow> execute v (CreateNote title) = (''created note '' @ title, v))
   \<and> (title \<notin> fst ` set v \<longrightarrow>
        execute v (CreateNote title) = (''created note '' @ title, v @ [(title, [])]))
   \<and> execute (snd (execute v (CreateNote title))) (CreateNote title)
        = execute v (CreateNote title)"
proof (cases "title \<in> fst ` set v")
  case True
  then show ?thesis by (simp add: createNote_existing)
next
  case False
  then have "createNote v title = v @ [(title, [])]" by (rule createNote_new)
  moreover have "createNote (v @ [(title, [])]) title = v @ [(title, [])]"
    by (rule createNote_existing) simp
  ultimately show ?thesis using False by simp
qed

text \<open>C6 on a store holding the note Foo: creating Foo again, and creating Bar.\<close>

theorem C6_create_note_witness:
  "execute [(''Foo'', ''A'')] (CreateNote ''Foo'') = (''created note Foo'', [(''Foo'', ''A'')])
   \<and> execute [(''Foo'', ''A'')] (CreateNote ''Bar'')
       = (''created note Bar'', [(''Foo'', ''A''), (''Bar'', [])])"
  using C6_create_note [of "''Foo''" "[(''Foo'', ''A'')]"]
    C6_create_note [of "''Bar''" "[(''Foo'', ''A'')]"]
  by simp

text \<open>
  Claim C7. \<open>ReadNote\<close> on a title no note has replies \<open>note not found\<close>; on a title
  some note has it replies the whole content of the first such note in enumeration order.
  Titles are compared exactly, case included. The store is unchanged either way.
\<close>

theorem C7_read_note:
  "(title \<notin> fst ` set v \<longrightarrow> execute v (ReadNote title) = (''note not found'', v))
   \<and> (\<forall>i A. i < length v \<and> v ! i = (title, A) \<and> (\<forall>j<i. fst (v ! j) \<noteq> title) \<longrightarrow>
        execute v (ReadNote title) = (A, v))"
proof (intro conjI allI impI)
  assume "title \<notin> fst ` set v"
  then show "execute v (ReadNote title) = (''note not found'', v)"
    by (simp add: readNote_missing)
next
  fix i A
  assume "i < length v \<and> v ! i = (title, A) \<and> (\<forall>j<i. fst (v ! j) \<noteq> title)"
  then have "readNote v title = Some A"
    using readNote_first [of i v title A] by simp
  then show "execute v (ReadNote title) = (A, v)"
    by simp
qed

text \<open>C7 on the notes Foo and Bar: Bar exists and is empty, and its empty content is the
  reply; \<open>foo\<close> is not the title \<open>Foo\<close>.\<close>

theorem C7_read_note_witness:
  "execute [(''Foo'', ''A''), (''Bar'', [])] (ReadNote ''Bar'') = ([], [(''Foo'', ''A''), (''Bar'', [])])
   \<and> execute [(''Foo'', ''A''), (''Bar'', [])] (ReadNote ''foo'')
       = (''note not found'', [(''Foo'', ''A''), (''Bar'', [])])"
proof -
  have "execute [(''Foo'', ''A''), (''Bar'', [])] (ReadNote ''Bar'') = ([], [(''Foo'', ''A''), (''Bar'', [])])"
    using C7_read_note [of "''Bar''" "[(''Foo'', ''A''), (''Bar'', [])]",
        THEN conjunct2, rule_format, of 1 "[]"]
    by (simp add: less_Suc_eq)
  moreover have "execute [(''Foo'', ''A''), (''Bar'', [])] (ReadNote ''foo'')
       = (''note not found'', [(''Foo'', ''A''), (''Bar'', [])])"
    using C7_read_note [of "''foo''" "[(''Foo'', ''A''), (''Bar'', [])]", THEN conjunct1]
    by simp
  ultimately show ?thesis by simp
qed

text \<open>
  Claim C8. \<open>SearchNotes\<close> replies the titles of exactly the notes whose lowercased
  content has the lowercased term as a contiguous part, in enumeration order, joined by a
  comma and a blank; the empty term selects every note.
\<close>

theorem C8_search_notes:
  "execute v (SearchNotes term)
     = (join (map fst (filter (\<lambda>note. sublist (toLowerCase term) (toLowerCase (snd note))) v)) '', '', v)
   \<and> execute v (SearchNotes []) = (join (map fst v) '', '', v)"
  by (simp add: searchNotes_filter toLowerCase_def)

text \<open>C8 on three notes, two of which hold \<open>hello\<close> in some case.\<close>

theorem C8_search_notes_witness:
  "execute [(''A'', ''Hello there''), (''B'', ''bye''), (''C'', ''say HELLO'')] (SearchNotes ''hello'')
     = (''A, C'', [(''A'', ''Hello there''), (''B'', ''bye''), (''C'', ''say HELLO'')])"
proof -
  have e: "join (map fst (filter (\<lambda>note. includes_str (toLowerCase (snd note)) (toLowerCase ''hello''))
      [(''A'', ''Hello there''), (''B'', ''bye''), (''C'', ''say HELLO'')])) '', '' = ''A, C''"
    by code_simp
  show ?thesis
    using C8_search_notes [of "[(''A'', ''Hello there''), (''B'', ''bye''), (''C'', ''say HELLO'')]" "''hello''"]
      e [unfolded includes_str_sublist]
    by simp
qed

text \<open>
  Claim C9. \<open>ReadNote\<close>, \<open>ListNotes\<close>, \<open>SearchNotes\<close> and \<open>Unknown\<close> leave the store
  exactly as it was. \<open>CreateNote\<close> keeps every note there is, title and content, and can
  only add one at the end; \<open>AppendToNote\<close> keeps the titles, so it is the only command
  that changes a content. No command deletes a note: the titles before are the first
  titles after, in the same order.
\<close>

theorem C9_frame:
  "snd (execute v (ReadNote t)) = v
   \<and> snd (execute v ListNotes) = v
   \<and> snd (execute v (SearchNotes t)) = v
   \<and> snd (execute v (Unknown t)) = v
   \<and> prefix v (snd (execute v (CreateNote t)))
   \<and> map fst (snd (execute v (AppendToNote t c))) = map fst v
   \<and> prefix (map fst v) (map fst (snd (execute v cmd)))"
proof -
  have "prefix (map fst v) (map fst (snd (execute v cmd)))"
    by (cases cmd) (simp_all add: map_fst_appendTo prefix_createNote map_mono_prefix)
  then show ?thesis
    by (simp add: map_fst_appendTo prefix_createNote)
qed

text \<open>C9 on a store holding the note Foo.\<close>

theorem C9_frame_witness:
  "snd (execute [(''Foo'', ''A'')] (ReadNote ''Foo'')) = [(''Foo'', ''A'')]
   \<and> map fst (snd (execute [(''Foo'', ''A'')] (AppendToNote ''Foo'' ''x''))) = [''Foo'']
   \<and> prefix [''Foo''] (map fst (snd (execute [(''Foo'', ''A'')] (CreateNote ''Bar''))))"
  using C9_frame [of "[(''Foo'', ''A'')]" "''Foo''" "''x''" "CreateNote ''Bar''"]
  by simp




end
